theory Spec2Isabelle
  imports Complex_Main "HOL-Library.Multiset"
begin

section \<open>The landing page of Glyzier: \<open>pages/HomePage.jsx\<close>\<close>

text \<open>
  The component keeps its data in React state cells and changes them from event handlers,
  timers and promise continuations. The embedding makes every state cell a record field and
  every handler, timer callback and continuation a function from state to state. A callback
  reads the cells of the render it was created in; a handler attached to the page is always
  the one of the latest render, so it reads the current state, while a value captured by a
  pending timeout or by an outstanding request is stored with that timeout or request.
  The colour palette of the background effect, routing and markup are left out.
\<close>

subsection \<open>Products and their order\<close>

record product =
  pid :: int
  productname :: string
  productdesc :: string
  screenshotPreviewUrl :: "string option"
  price :: real

text \<open>
  \<^verbatim>\<open>data.sort((a, b) => b.pid - a.pid)\<close>: the comparator puts the larger identifier first,
  and \<^verbatim>\<open>Array.prototype.sort\<close> is stable, so products with equal identifiers keep their
  source order. That is the stable sort on the negated identifier.
\<close>

definition sortDesc :: "product list \<Rightarrow> product list" where
  "sortDesc data = sort_key (\<lambda>p. - pid p) data"

text \<open>\<^verbatim>\<open>xs.slice(start, end)\<close> for non-negative indices; both ends are clamped to the length.\<close>

definition slice :: "'a list \<Rightarrow> nat \<Rightarrow> nat \<Rightarrow> 'a list" where
  "slice xs start end' = take (end' - start) (drop start xs)"

definition descending :: "product list \<Rightarrow> bool" where
  "descending xs = sorted_wrt (\<lambda>a b. pid b \<le> pid a) xs"

subsection \<open>JavaScript numbers of the carousel\<close>

text \<open>
  The carousel index is a JavaScript number. All values that occur are integers far inside
  the exact range, or \<open>NaN\<close>, which the remainder by zero produces. The sign of a zero is
  not observable in this component and is not modelled.
\<close>

datatype jsnum = Num int | NaN

fun js_add :: "jsnum \<Rightarrow> jsnum \<Rightarrow> jsnum" where
  "js_add (Num a) (Num b) = Num (a + b)"
| "js_add _ _ = NaN"

fun js_sub :: "jsnum \<Rightarrow> jsnum \<Rightarrow> jsnum" where
  "js_sub (Num a) (Num b) = Num (a - b)"
| "js_sub _ _ = NaN"

text \<open>\<^verbatim>\<open>a % b\<close>: the remainder has the sign of the dividend; a zero divisor gives \<open>NaN\<close>.\<close>

fun js_rem :: "jsnum \<Rightarrow> jsnum \<Rightarrow> jsnum" where
  "js_rem (Num a) (Num b) = (if b = 0 then NaN else Num (sgn a * (\<bar>a\<bar> mod \<bar>b\<bar>)))"
| "js_rem _ _ = NaN"

text \<open>\<^verbatim>\<open>a === b\<close> on numbers: \<open>NaN\<close> equals nothing, itself included.\<close>

fun js_strict_eq :: "jsnum \<Rightarrow> jsnum \<Rightarrow> bool" where
  "js_strict_eq (Num a) (Num b) = (a = b)"
| "js_strict_eq _ _ = False"

subsection \<open>The hook \<open>useCarousel\<close>\<close>

text \<open>
  A pending \<^verbatim>\<open>setTimeout\<close> callback holds the update it will pass to \<^verbatim>\<open>setCurrentIndex\<close>;
  \<open>totalSlides\<close> in it is the value of the render that scheduled it.
\<close>

datatype update = NextSlide int | PrevSlide int | ToSlide int

fun apply_update :: "update \<Rightarrow> jsnum \<Rightarrow> jsnum" where
  "apply_update (NextSlide totalSlides) prev = js_rem (js_add prev (Num 1)) (Num totalSlides)"
| "apply_update (PrevSlide totalSlides) prev =
     js_rem (js_add (js_sub prev (Num 1)) (Num totalSlides)) (Num totalSlides)"
| "apply_update (ToSlide index) prev = Num index"

record carousel =
  currentIndex :: jsnum
  isTransitioning :: bool
  timeouts :: "update list"

definition useCarousel :: carousel where
  "useCarousel = \<lparr>currentIndex = Num 0, isTransitioning = False, timeouts = []\<rparr>"

text \<open>\<^verbatim>\<open>setIsTransitioning(true); setTimeout(() => {...}, 300)\<close>, shared by all four paths.\<close>

definition schedule :: "update \<Rightarrow> carousel \<Rightarrow> carousel" where
  "schedule u c = c\<lparr>isTransitioning := True, timeouts := timeouts c @ [u]\<rparr>"

text \<open>The effect installs the interval timer unless \<^verbatim>\<open>totalSlides <= 1\<close>.\<close>

definition timerInstalled :: "int \<Rightarrow> bool" where
  "timerInstalled totalSlides = (\<not> totalSlides \<le> 1)"

text \<open>The body of the \<^verbatim>\<open>setInterval\<close> callback.\<close>

definition autoAdvance :: "int \<Rightarrow> carousel \<Rightarrow> carousel" where
  "autoAdvance totalSlides c = schedule (NextSlide totalSlides) c"

definition goToNext :: "int \<Rightarrow> carousel \<Rightarrow> carousel" where
  "goToNext totalSlides c =
     (if isTransitioning c then c else schedule (NextSlide totalSlides) c)"

definition goToPrev :: "int \<Rightarrow> carousel \<Rightarrow> carousel" where
  "goToPrev totalSlides c =
     (if isTransitioning c then c else schedule (PrevSlide totalSlides) c)"

definition goToSlide :: "int \<Rightarrow> carousel \<Rightarrow> carousel" where
  "goToSlide index c =
     (if isTransitioning c \<or> js_strict_eq (Num index) (currentIndex c) then c
      else schedule (ToSlide index) c)"

text \<open>
  All timeouts last 300 ms, so they expire in the order they were set. The expiring callback
  applies its update and clears the flag.
\<close>

definition timeoutFires :: "carousel \<Rightarrow> carousel" where
  "timeoutFires c =
     (case timeouts c of
        [] \<Rightarrow> c
      | u # us \<Rightarrow> c\<lparr>currentIndex := apply_update u (currentIndex c),
                     isTransitioning := False, timeouts := us\<rparr>)"

text \<open>
  One period of the interval timer when nothing else happens: the callback runs, if the
  timer exists, and its timeout (300 ms) expires well before the next period (5000 ms).
\<close>

definition intervalPasses :: "int \<Rightarrow> carousel \<Rightarrow> carousel" where
  "intervalPasses totalSlides c =
     (if timerInstalled totalSlides then timeoutFires (autoAdvance totalSlides c) else c)"

subsection \<open>The state of \<open>HomePage\<close>\<close>

text \<open>
  The \<^verbatim>\<open>useState\<close> cells of the component, the state of its carousel hook, the console,
  and the calls to the product service that have not settled yet. An outstanding call of
  the feed loader is recorded by the \<open>feedPage\<close> of the render that made it, which its
  continuation uses to cut the page.
\<close>

record home =
  products :: "product list"
  loading :: bool
  error :: "string option"
  feedProducts :: "product list"
  feedPage :: nat
  feedLoading :: bool
  feedHasMore :: bool
  hero :: carousel
  console :: "string list"
  productsRequested :: bool
  feedRequests :: "nat list"

definition initial :: home where
  "initial = \<lparr>products = [], loading = True, error = None,
     feedProducts = [], feedPage = 0, feedLoading = False, feedHasMore = True,
     hero = useCarousel, console = [], productsRequested = False, feedRequests = []\<rparr>"

definition heroSlides :: "home \<Rightarrow> nat" where
  "heroSlides s = min (length (products s)) 5"

subsection \<open>The initial fetch \<open>fetchProducts\<close>\<close>

text \<open>A call of the product service either resolves with the collection or throws.\<close>

datatype response = Resolved "product list" | Rejected

definition fetchProducts_call :: "home \<Rightarrow> home" where
  "fetchProducts_call s = s\<lparr>loading := True, productsRequested := True\<rparr>"

definition fetchProducts_settle :: "response \<Rightarrow> home \<Rightarrow> home" where
  "fetchProducts_settle r s =
     (case r of
        Resolved data \<Rightarrow>
          (let sortedData = sortDesc data
           in s\<lparr>products := slice sortedData 0 8, error := None, loading := False,
                 productsRequested := False\<rparr>)
      | Rejected \<Rightarrow>
          s\<lparr>console := console s @ [''Failed to fetch products:''],
            error := Some ''Failed to load art.'', loading := False,
            productsRequested := False\<rparr>)"

definition fetchProducts :: "response \<Rightarrow> home \<Rightarrow> home" where
  "fetchProducts r s = fetchProducts_settle r (fetchProducts_call s)"

subsection \<open>The feed loader \<open>loadMoreFeedProducts\<close>\<close>

text \<open>
  The part before \<^verbatim>\<open>await\<close>: the guard, then \<^verbatim>\<open>setFeedLoading(true)\<close>. It returns the
  \<open>feedPage\<close> its continuation will use, or \<open>None\<close> when the guard returned.
\<close>

definition loadMore_call :: "home \<Rightarrow> nat option \<times> home" where
  "loadMore_call s =
     (if feedLoading s \<or> \<not> feedHasMore s then (None, s)
      else (Some (feedPage s), s\<lparr>feedLoading := True\<rparr>))"

text \<open>
  The part after \<^verbatim>\<open>await\<close>, with \<^verbatim>\<open>catch\<close> and \<^verbatim>\<open>finally\<close>. The list and the page
  counter are changed by updater functions, so they start from the current state; the page
  is cut at the captured \<open>page\<close>.
\<close>

definition loadMore_settle :: "response \<Rightarrow> nat \<Rightarrow> home \<Rightarrow> home" where
  "loadMore_settle r page s =
     (case r of
        Resolved data \<Rightarrow>
          (let sortedData = sortDesc data;
               pageSize = 12;
               startIndex = page * pageSize;
               endIndex = startIndex + pageSize;
               pageData = slice sortedData startIndex endIndex
           in (if length pageData = 0 then s\<lparr>feedHasMore := False\<rparr>
               else s\<lparr>feedProducts := feedProducts s @ pageData,
                      feedPage := feedPage s + 1,
                      feedHasMore := (if endIndex \<ge> length sortedData then False
                                      else feedHasMore s)\<rparr>)
              \<lparr>feedLoading := False\<rparr>)
      | Rejected \<Rightarrow>
          s\<lparr>console := console s @ [''Failed load feed:''], feedLoading := False\<rparr>)"

text \<open>One call run to its end, the service answering with \<open>r\<close>.\<close>

definition loadMoreFeedProducts :: "response \<Rightarrow> home \<Rightarrow> home" where
  "loadMoreFeedProducts r s =
     (case loadMore_call s of
        (None, s') \<Rightarrow> s'
      | (Some page, s') \<Rightarrow> loadMore_settle r page s')"

text \<open>The page a call appends when the service answers with \<open>data\<close>.\<close>

definition pageData :: "product list \<Rightarrow> nat \<Rightarrow> product list" where
  "pageData data page = slice (sortDesc data) (page * 12) (page * 12 + 12)"

subsection \<open>Mounting, and the events of the page\<close>

text \<open>
  A caller that does not wait for the loader (the mount effect, the observer) runs it up to
  its \<^verbatim>\<open>await\<close> and leaves the call outstanding.
\<close>

definition loadMore_start :: "home \<Rightarrow> home" where
  "loadMore_start s =
     (case loadMore_call s of
        (None, s') \<Rightarrow> s'
      | (Some page, s') \<Rightarrow> s'\<lparr>feedRequests := feedRequests s' @ [page]\<rparr>)"

text \<open>
  The effects with an empty dependency list run once, after the first render: the initial
  fetch is started, and the feed loader is called. The intersection observer is registered
  between the two; registering changes no state, and its callback is an event below.
\<close>

definition mount :: home where
  "mount = loadMore_start (fetchProducts_call initial)"

text \<open>The callback of the intersection observer, for an entry that intersects or not.\<close>

definition observerCallback :: "bool \<Rightarrow> home \<Rightarrow> home" where
  "observerCallback isIntersecting s =
     (if isIntersecting \<and> feedHasMore s \<and> \<not> feedLoading s then loadMore_start s else s)"

datatype event =
    ProductsSettle response
  | IntervalTimer
  | Timeout
  | ClickNext
  | ClickPrev
  | ClickIndicator nat
  | Sentinel bool
  | FeedSettle response

text \<open>
  What an event does to the page, or \<open>None\<close> when it cannot happen: a response needs an
  outstanding call, the interval timer exists only with more than one slide, a timeout must
  be pending, and the indicator buttons are rendered only with more than one slide, one for
  each of \<^verbatim>\<open>products.slice(0, 5)\<close>. The arrows are always rendered.
\<close>

fun step :: "event \<Rightarrow> home \<Rightarrow> home option" where
  "step (ProductsSettle r) s =
     (if productsRequested s then Some (fetchProducts_settle r s) else None)"
| "step IntervalTimer s =
     (if timerInstalled (int (heroSlides s))
      then Some (s\<lparr>hero := autoAdvance (int (heroSlides s)) (hero s)\<rparr>) else None)"
| "step Timeout s =
     (if timeouts (hero s) = [] then None else Some (s\<lparr>hero := timeoutFires (hero s)\<rparr>))"
| "step ClickNext s = Some (s\<lparr>hero := goToNext (int (heroSlides s)) (hero s)\<rparr>)"
| "step ClickPrev s = Some (s\<lparr>hero := goToPrev (int (heroSlides s)) (hero s)\<rparr>)"
| "step (ClickIndicator index) s =
     (if heroSlides s > 1 \<and> index < heroSlides s
      then Some (s\<lparr>hero := goToSlide (int index) (hero s)\<rparr>) else None)"
| "step (Sentinel isIntersecting) s = Some (observerCallback isIntersecting s)"
| "step (FeedSettle r) s =
     (case feedRequests s of
        [] \<Rightarrow> None
      | page # rest \<Rightarrow> Some (loadMore_settle r page (s\<lparr>feedRequests := rest\<rparr>)))"

fun run :: "event list \<Rightarrow> home \<Rightarrow> home option" where
  "run [] s = Some s"
| "run (e # es) s = (case step e s of None \<Rightarrow> None | Some s' \<Rightarrow> run es s')"

inductive reachable :: "home \<Rightarrow> bool" where
  reachable_mount: "reachable mount"
| reachable_step: "reachable s \<Longrightarrow> step e s = Some s' \<Longrightarrow> reachable s'"

subsection \<open>Repeated calls, repeated periods, and the carousel invariant\<close>

text \<open>\<open>k\<close> calls of the feed loader, each run to its end before the next, the service
  answering with the same collection every time.\<close>

primrec successiveCalls :: "nat \<Rightarrow> product list \<Rightarrow> home \<Rightarrow> home" where
  "successiveCalls 0 data s = s"
| "successiveCalls (Suc k) data s =
     loadMoreFeedProducts (Resolved data) (successiveCalls k data s)"

text \<open>\<open>k\<close> periods of the interval timer with no other event.\<close>

primrec intervalsPass :: "nat \<Rightarrow> int \<Rightarrow> carousel \<Rightarrow> carousel" where
  "intervalsPass 0 totalSlides c = c"
| "intervalsPass (Suc k) totalSlides c =
     intervalPasses totalSlides (intervalsPass k totalSlides c)"

text \<open>
  The invariant of the carousel inside the page, for \<open>n\<close> slides. A numeric index is 0
  when there is no slide and below \<open>n\<close> otherwise. A pending update was scheduled either
  with the current slide count or before the products arrived, with count 0; an indicator
  target is one of the current slides.
\<close>

definition index_ok :: "nat \<Rightarrow> jsnum \<Rightarrow> bool" where
  "index_ok n x =
     (case x of NaN \<Rightarrow> True | Num i \<Rightarrow> 0 \<le> i \<and> (if n = 0 then i = 0 else i < int n))"

definition update_ok :: "nat \<Rightarrow> update \<Rightarrow> bool" where
  "update_ok n u =
     (case u of
        NextSlide k \<Rightarrow> k = int n \<or> k = 0
      | PrevSlide k \<Rightarrow> k = int n \<or> k = 0
      | ToSlide i \<Rightarrow> 0 \<le> i \<and> i < int n)"

definition carousel_ok :: "home \<Rightarrow> bool" where
  "carousel_ok s =
     ((productsRequested s \<longrightarrow> products s = []) \<and>
      index_ok (heroSlides s) (currentIndex (hero s)) \<and>
      list_all (update_ok (heroSlides s)) (timeouts (hero s)))"

subsection \<open>Concrete collections\<close>

definition sample :: "int \<Rightarrow> product" where
  "sample n = \<lparr>pid = n, productname = ''art'', productdesc = [],
     screenshotPreviewUrl = None, price = 0\<rparr>"

definition three :: "product list" where
  "three = [sample 2, sample 3, sample 1]"

definition thirteen :: "product list" where
  "thirteen = map sample [4, 9, 1, 13, 6, 2, 11, 7, 3, 12, 5, 10, 8]"

section \<open>Properties\<close>

subsection \<open>Sorting and slicing\<close>

lemma length_sortDesc: "length (sortDesc data) = length data"
  by (simp add: sortDesc_def)

lemma descending_sortDesc: "descending (sortDesc data)"
  unfolding descending_def sortDesc_def
  using sorted_sort_key [of "\<lambda>p. - pid p" data] by (simp add: sorted_map)

lemma descending_slice: "descending xs \<Longrightarrow> descending (slice xs a b)"
  unfolding descending_def slice_def
  by (intro sorted_wrt_take sorted_wrt_drop)

lemma slice_from_0: "slice xs 0 n = take n xs"
  by (simp add: slice_def)

lemma sortDesc_three: "sortDesc three = [sample 3, sample 2, sample 1]"
  by (simp add: sortDesc_def three_def sample_def)

lemma sortDesc_thirteen:
  "sortDesc thirteen = map sample [13, 12, 11, 10, 9, 8, 7, 6, 5, 4, 3, 2, 1]"
  by (simp add: sortDesc_def thirteen_def sample_def)

subsection \<open>The feed loader\<close>

lemma loadMore_appends:
  "feedProducts (loadMore_settle (Resolved data) page s) = feedProducts s @ pageData data page"
  by (simp add: loadMore_settle_def pageData_def Let_def)

lemma guard_returns:
  "feedLoading s \<or> \<not> feedHasMore s \<Longrightarrow> loadMoreFeedProducts r s = s"
  by (auto simp: loadMoreFeedProducts_def loadMore_call_def)

lemma mount_eq:
  "mount = initial\<lparr>productsRequested := True, feedLoading := True, feedRequests := [0]\<rparr>"
  by (simp add: mount_def loadMore_start_def loadMore_call_def fetchProducts_call_def
      initial_def)

text \<open>
  Claim C4. A call of the feed loader while \<open>feedLoading\<close> is true or \<open>feedHasMore\<close> is
  false changes nothing: the state after the call is the state before it, so the list, the
  page counter and both flags are the same. The same holds when the call comes from a
  caller that does not wait, and from the observer.
\<close>

theorem guarded_fetch_changes_nothing:
  assumes "feedLoading s \<or> \<not> feedHasMore s"
  shows "loadMoreFeedProducts r s = s \<and> loadMore_call s = (None, s) \<and>
    loadMore_start s = s \<and> observerCallback isIntersecting s = s"
  using assms
  by (auto simp: loadMoreFeedProducts_def loadMore_call_def loadMore_start_def
      observerCallback_def)

theorem guarded_fetch_changes_nothing_witness:
  "feedLoading mount \<and> loadMoreFeedProducts (Resolved thirteen) mount = mount \<and>
   feedProducts (loadMoreFeedProducts (Resolved thirteen) mount) = [] \<and>
   feedPage (loadMoreFeedProducts (Resolved thirteen) mount) = 0"
proof -
  have h: "feedLoading mount" by (simp add: mount_eq)
  then have "feedLoading mount \<or> \<not> feedHasMore mount" ..
  from guarded_fetch_changes_nothing [OF this, of "Resolved thirteen"] h
  show ?thesis by (simp add: mount_eq initial_def)
qed

text \<open>
  Claim C5. When the product call of a feed fetch throws, the continuation clears
  \<open>feedLoading\<close> and leaves \<open>feedProducts\<close>, \<open>feedPage\<close> and \<open>feedHasMore\<close> as they were.
  A whole call that fails returns the state it started from, but for the line on the
  console, so the next call passes the guard again and asks for the same page.
\<close>

theorem failed_fetch_keeps_feed:
  "feedLoading (loadMore_settle Rejected page s) = False \<and>
   feedProducts (loadMore_settle Rejected page s) = feedProducts s \<and>
   feedPage (loadMore_settle Rejected page s) = feedPage s \<and>
   feedHasMore (loadMore_settle Rejected page s) = feedHasMore s \<and>
   (\<not> feedLoading s \<and> feedHasMore s \<longrightarrow>
      loadMoreFeedProducts Rejected s = s\<lparr>console := console s @ [''Failed load feed:'']\<rparr> \<and>
      fst (loadMore_call (loadMoreFeedProducts Rejected s)) = Some (feedPage s))"
  by (simp add: loadMore_settle_def loadMoreFeedProducts_def loadMore_call_def)

theorem failed_fetch_keeps_feed_witness:
  "\<not> feedLoading initial \<and> feedHasMore initial \<and>
   loadMoreFeedProducts Rejected initial = initial\<lparr>console := [''Failed load feed:'']\<rparr> \<and>
   fst (loadMore_call (loadMoreFeedProducts Rejected initial)) = Some 0"
proof -
  have h: "\<not> feedLoading initial \<and> feedHasMore initial" by (simp add: initial_def)
  have i: "console initial = []" "feedPage initial = 0" by (simp_all add: initial_def)
  from failed_fetch_keeps_feed [of 0 initial] h
  have "loadMoreFeedProducts Rejected initial =
          initial\<lparr>console := console initial @ [''Failed load feed:'']\<rparr> \<and>
        fst (loadMore_call (loadMoreFeedProducts Rejected initial)) = Some (feedPage initial)"
    by blast
  then have "loadMoreFeedProducts Rejected initial =
          initial\<lparr>console := [''Failed load feed:'']\<rparr> \<and>
        fst (loadMore_call (loadMoreFeedProducts Rejected initial)) = Some 0"
    unfolding i append_Nil .
  with h show ?thesis by blast
qed

lemma successiveCalls_state:
  "feedProducts (successiveCalls k data initial) = take (12 * k) (sortDesc data) \<and>
   feedPage (successiveCalls k data initial) = min k ((length data + 11) div 12) \<and>
   \<not> feedLoading (successiveCalls k data initial) \<and>
   feedHasMore (successiveCalls k data initial) = (k = 0 \<or> 12 * k < length data)"
proof (induction k)
  case 0
  show ?case by (simp add: initial_def)
next
  case (Suc k)
  let ?s = "successiveCalls k data initial"
  let ?sd = "sortDesc data"
  have len: "length ?sd = length data" by (rule length_sortDesc)
  show ?case
  proof (cases "feedHasMore ?s")
    case False
    with Suc have k: "0 < k" "length data \<le> 12 * k" by auto
    from False have same: "successiveCalls (Suc k) data initial = ?s"
      by (simp add: guard_returns)
    have "take (12 * Suc k) ?sd = take (12 * k) ?sd" using k len by simp
    moreover have "min (Suc k) ((length data + 11) div 12) = min k ((length data + 11) div 12)"
      using k by (simp add: min_def; arith?)
    ultimately show ?thesis using Suc k same by simp
  next
    case True
    with Suc have pg: "feedPage ?s = k"
      by (auto simp: min_def)
    have nl: "\<not> feedLoading ?s" using Suc by simp
    have fp: "feedProducts ?s = take (12 * k) ?sd" using Suc by simp
    have next_state: "successiveCalls (Suc k) data initial
        = loadMore_settle (Resolved data) k (?s\<lparr>feedLoading := True\<rparr>)"
      using True nl pg by (simp add: loadMoreFeedProducts_def loadMore_call_def)
    show ?thesis
    proof (cases "length data \<le> 12 * k")
      case empty: True
      with True Suc have k0: "k = 0" by auto
      with empty have "data = []" by simp
      then show ?thesis using k0 next_state
        by (simp add: loadMore_settle_def slice_def sortDesc_def initial_def)
    next
      case nonempty: False
      then have ne: "slice ?sd (k * 12) (k * 12 + 12) \<noteq> []"
        using len by (simp add: slice_def)
      have app: "take (12 * k) ?sd @ slice ?sd (k * 12) (k * 12 + 12) = take (12 * Suc k) ?sd"
      proof -
        have e: "12 * Suc k = 12 * k + 12" by simp
        show ?thesis unfolding e slice_def by (simp add: take_add mult.commute)
      qed
      have pgs: "min (Suc k) ((length data + 11) div 12) = Suc k"
        using nonempty by (simp add: min_def; arith?)
      show ?thesis
        using next_state ne app pgs fp pg True len
        by (auto simp: loadMore_settle_def Let_def mult.commute)
    qed
  qed
qed

lemma take_next_page:
  "take (12 * Suc k) (sortDesc data) = take (12 * k) (sortDesc data) @ pageData data k"
proof -
  have e: "12 * Suc k = 12 * k + 12" by simp
  show ?thesis unfolding e pageData_def slice_def by (simp add: take_add mult.commute)
qed

text \<open>
  Claim C1. Start from the initial feed and call the loader again and again, each call run
  to its end, the service answering with the same collection \<open>data\<close> of size \<open>M\<close>.
  After \<open>k\<close> calls the feed is the first \<open>12 * k\<close> items of the collection sorted by
  identifier, descending. Call \<open>k + 1\<close> appends the window \<open>[12 * k, 12 * k + 12)\<close> of it,
  which holds \<open>min 12 (M - 12 * k)\<close> items: the windows are contiguous and do not
  overlap. While the window is not empty the page counter is \<open>k\<close> before the call and
  \<open>k + 1\<close> after it. From the first call on, \<open>feedHasMore\<close> is true exactly while the feed
  is shorter than \<open>M\<close>; once the feed has \<open>M\<close> items the flag is false and any further call
  returns the state unchanged.
\<close>

theorem feed_pages:
  "feedProducts (successiveCalls k data initial) = take (12 * k) (sortDesc data) \<and>
   feedProducts (successiveCalls (Suc k) data initial) =
     feedProducts (successiveCalls k data initial) @ pageData data k \<and>
   length (pageData data k) = min 12 (length data - 12 * k) \<and>
   (12 * k < length data \<longrightarrow>
      feedPage (successiveCalls k data initial) = k \<and>
      feedPage (successiveCalls (Suc k) data initial) = k + 1) \<and>
   feedHasMore (successiveCalls (Suc k) data initial) =
     (length (feedProducts (successiveCalls (Suc k) data initial)) < length data) \<and>
   (length (feedProducts (successiveCalls (Suc k) data initial)) = length data \<longrightarrow>
      \<not> feedHasMore (successiveCalls (Suc k) data initial) \<and>
      (\<forall>r. loadMoreFeedProducts r (successiveCalls (Suc k) data initial) =
            successiveCalls (Suc k) data initial))"
proof -
  define s where "s = successiveCalls k data initial"
  define s' where "s' = successiveCalls (Suc k) data initial"
  note A = successiveCalls_state [of k data, folded s_def]
  note B = successiveCalls_state [of "Suc k" data, folded s'_def]
  have len: "length (sortDesc data) = length data" by (rule length_sortDesc)
  have c1: "feedProducts s = take (12 * k) (sortDesc data)" using A by simp
  have c2: "feedProducts s' = feedProducts s @ pageData data k"
    using A B take_next_page [of k data] by simp
  have c3: "length (pageData data k) = min 12 (length data - 12 * k)"
    by (simp add: pageData_def slice_def len mult.commute min.commute)
  have c4: "feedPage s = k \<and> feedPage s' = k + 1" if "12 * k < length data"
  proof -
    have "min k ((length data + 11) div 12) = k" using that by (simp add: min_def; arith?)
    moreover have "min (Suc k) ((length data + 11) div 12) = Suc k"
      using that by (simp add: min_def; arith?)
    ultimately show ?thesis using A B by simp
  qed
  have ls': "length (feedProducts s') = min (length data) (12 * Suc k)"
    using B len by simp
  have c5: "feedHasMore s' = (length (feedProducts s') < length data)"
    using B ls' by (auto simp: min_def)
  have c6: "\<not> feedHasMore s' \<and> (\<forall>r. loadMoreFeedProducts r s' = s')"
    if "length (feedProducts s') = length data"
    using that c5 by (simp add: guard_returns)
  show ?thesis
    unfolding s_def [symmetric] s'_def [symmetric]
    using c1 c2 c3 c4 c5 c6 by blast
qed

theorem feed_pages_witness:
  "12 * Suc 0 < length thirteen \<and>
   feedPage (successiveCalls (Suc 0) thirteen initial) = Suc 0 \<and>
   feedPage (successiveCalls (Suc (Suc 0)) thirteen initial) = Suc 0 + 1 \<and>
   map pid (feedProducts (successiveCalls (Suc (Suc 0)) thirteen initial)) =
     [13, 12, 11, 10, 9, 8, 7, 6, 5, 4, 3, 2, 1] \<and>
   length (feedProducts (successiveCalls (Suc (Suc 0)) thirteen initial)) = length thirteen \<and>
   \<not> feedHasMore (successiveCalls (Suc (Suc 0)) thirteen initial) \<and>
   loadMoreFeedProducts (Resolved thirteen) (successiveCalls (Suc (Suc 0)) thirteen initial) =
     successiveCalls (Suc (Suc 0)) thirteen initial"
proof -
  define s2 where "s2 = successiveCalls (Suc (Suc 0)) thirteen initial"
  define s1 where "s1 = successiveCalls (Suc 0) thirteen initial"
  note T = feed_pages [of "Suc 0" thirteen, folded s2_def s1_def]
  have h: "12 * Suc 0 < length thirteen" by (simp add: thirteen_def)
  have p1: "pageData thirteen (Suc 0) = [sample 1]"
    by (simp add: pageData_def sortDesc_thirteen slice_def)
  from T have "feedProducts s1 = take (12 * Suc 0) (sortDesc thirteen)" by blast
  then have f1: "feedProducts s1 = map sample [13, 12, 11, 10, 9, 8, 7, 6, 5, 4, 3, 2]"
    by (simp add: sortDesc_thirteen)
  from T have "feedProducts s2 = feedProducts s1 @ pageData thirteen (Suc 0)" by blast
  then have f2: "feedProducts s2 = map sample [13, 12, 11, 10, 9, 8, 7, 6, 5, 4, 3, 2, 1]"
    using f1 p1 by simp
  have l2: "length (feedProducts s2) = length thirteen"
    using f2 by (simp add: thirteen_def)
  have m: "map pid (feedProducts s2) = [13, 12, 11, 10, 9, 8, 7, 6, 5, 4, 3, 2, 1]"
    using f2 by (simp add: sample_def)
  from T h have pg: "feedPage s1 = Suc 0 \<and> feedPage s2 = Suc 0 + 1" by blast
  from T l2 have nm: "\<not> feedHasMore s2 \<and> (\<forall>r. loadMoreFeedProducts r s2 = s2)" by blast
  show ?thesis
    unfolding s2_def [symmetric] s1_def [symmetric]
    using h pg nm m l2 by blast
qed

subsection \<open>The initial fetch\<close>

lemma products_fetched:
  "products (fetchProducts (Resolved data) s) = take 8 (sortDesc data)"
  by (simp add: fetchProducts_def fetchProducts_settle_def fetchProducts_call_def slice_from_0)

text \<open>
  What \<open>sortDesc\<close> returns is fixed by three facts: it holds the fetched products, each as
  often as the collection does; it is in descending order of identifier; and products with
  the same identifier stay in their source order.
\<close>

lemma mset_sortDesc: "mset (sortDesc data) = mset data"
  by (simp add: sortDesc_def)

lemma sortDesc_stable:
  "filter (\<lambda>p. pid p = i) (sortDesc data) = filter (\<lambda>p. pid p = i) data"
  using sort_key_stable [of "\<lambda>p. - pid p" "- i" data] by (simp add: sortDesc_def)

text \<open>The identifiers, read off the sorted collection, are the sorted identifiers reversed.\<close>

lemma pids_sortDesc: "map pid (sortDesc data) = rev (sort (map pid data))"
proof -
  let ?ys = "rev (map pid (sortDesc data))"
  have m: "mset ?ys = mset (map pid data)"
    by (simp add: mset_sortDesc)
  have "sorted_wrt (\<lambda>a b. pid b \<le> pid a) (sortDesc data)"
    using descending_sortDesc [of data] by (simp add: descending_def)
  then have "sorted_wrt (\<lambda>x y. y \<le> x) (map pid (sortDesc data))"
    by (simp add: sorted_wrt_map)
  then have s: "sorted ?ys"
    by (simp add: sorted_wrt_rev)
  have "sort (map pid data) = ?ys"
    by (rule properties_for_sort [OF m s])
  then show ?thesis by simp
qed

lemma pids_slice: "map pid (slice xs a b) = slice (map pid xs) a b"
  by (simp add: slice_def take_map drop_map)

lemma pids_thirteen:
  "rev (sort (map pid thirteen)) = [13, 12, 11, 10, 9, 8, 7, 6, 5, 4, 3, 2, 1]"
  by (simp add: thirteen_def sample_def)

text \<open>
  Claim C8. Whatever the order of the collection the service returns, the list that is cut
  is the collection itself, sorted: it has the same products as the fetched collection, it
  is in descending order of identifier, and products with equal identifiers keep their
  source order. The products kept for the hero and the hot list are its first 8 items and
  every page the feed loader appends is a window of 12 of it, so both are in descending
  order of identifier; their identifiers are the corresponding part of the identifiers of
  the collection sorted downwards, which is the same for every ordering of the source.
\<close>

theorem presented_descending:
  "mset (sortDesc data) = mset data \<and>
   descending (sortDesc data) \<and>
   (\<forall>i. filter (\<lambda>p. pid p = i) (sortDesc data) = filter (\<lambda>p. pid p = i) data) \<and>
   products (fetchProducts (Resolved data) s) = take 8 (sortDesc data) \<and>
   descending (products (fetchProducts (Resolved data) s)) \<and>
   map pid (products (fetchProducts (Resolved data) s)) = take 8 (rev (sort (map pid data))) \<and>
   feedProducts (loadMore_settle (Resolved data) page s) = feedProducts s @ pageData data page \<and>
   pageData data page = take 12 (drop (12 * page) (sortDesc data)) \<and>
   descending (pageData data page) \<and>
   map pid (pageData data page) = take 12 (drop (12 * page) (rev (sort (map pid data)))) \<and>
   (mset data' = mset data \<longrightarrow>
      map pid (sortDesc data') = map pid (sortDesc data) \<and>
      map pid (products (fetchProducts (Resolved data') s)) =
        map pid (products (fetchProducts (Resolved data) s)) \<and>
      map pid (pageData data' page) = map pid (pageData data page))"
proof -
  have ms: "mset (sortDesc data) = mset data"
    by (simp add: sortDesc_def)
  have ds: "descending (sortDesc data)"
    unfolding descending_def sortDesc_def
    using sorted_sort_key [of "\<lambda>p. - pid p" data] by (simp add: sorted_map)
  have pf: "products (fetchProducts (Resolved d) s) = take 8 (sortDesc d)" for d
    by (simp add: fetchProducts_def fetchProducts_settle_def fetchProducts_call_def slice_def)
  have h: "descending (take 8 (sortDesc data))"
    using descending_slice [OF ds, of 0 8] by (simp add: slice_def)
  have hp: "map pid (take 8 (sortDesc data)) = take 8 (rev (sort (map pid data)))"
    by (simp only: take_map [symmetric] pids_sortDesc)
  have pg: "pageData data page = take 12 (drop (12 * page) (sortDesc data))"
    by (simp add: pageData_def slice_def mult.commute)
  have pd: "descending (pageData data page)"
    unfolding pageData_def by (rule descending_slice [OF ds])
  have pp: "map pid (pageData d page) = take 12 (drop (12 * page) (rev (sort (map pid d))))"
    for d
  proof -
    have "map pid (pageData d page) = take 12 (drop (12 * page) (map pid (sortDesc d)))"
      by (simp add: pageData_def slice_def take_map drop_map mult.commute)
    then show ?thesis by (simp only: pids_sortDesc)
  qed
  have perm: "map pid (sortDesc data') = map pid (sortDesc data) \<and>
      map pid (products (fetchProducts (Resolved data') s)) =
        map pid (products (fetchProducts (Resolved data) s)) \<and>
      map pid (pageData data' page) = map pid (pageData data page)"
    if e: "mset data' = mset data"
  proof -
    from e have "mset (map pid data') = mset (map pid data)" by simp
    then have "sort (map pid data') = sort (map pid data)"
      by (intro properties_for_sort) simp_all
    then have "map pid (sortDesc data') = map pid (sortDesc data)"
      by (simp only: pids_sortDesc)
    moreover from this have "map pid (take 8 (sortDesc data')) = map pid (take 8 (sortDesc data))"
      by (simp only: take_map [symmetric])
    moreover have "map pid (pageData data' page) = map pid (pageData data page)"
      using \<open>sort (map pid data') = sort (map pid data)\<close> by (simp only: pp)
    ultimately show ?thesis by (simp only: pf simp_thms)
  qed
  have st: "\<forall>i. filter (\<lambda>p. pid p = i) (sortDesc data) = filter (\<lambda>p. pid p = i) data"
    by (simp add: sortDesc_stable)
  have ap: "feedProducts (loadMore_settle (Resolved data) page s) =
      feedProducts s @ pageData data page"
    by (simp add: loadMore_settle_def pageData_def Let_def)
  have hd: "descending (products (fetchProducts (Resolved data) s))"
    using h by (simp only: pf)
  have hq: "map pid (products (fetchProducts (Resolved data) s)) =
      take 8 (rev (sort (map pid data)))"
    using hp by (simp only: pf)
  from ms ds st pf [of data] hd hq ap pg pd pp [of data] perm
  show ?thesis by blast
qed

theorem presented_descending_witness:
  "mset (rev thirteen) = mset thirteen \<and>
   map pid (sortDesc thirteen) = [13, 12, 11, 10, 9, 8, 7, 6, 5, 4, 3, 2, 1] \<and>
   map pid (sortDesc (rev thirteen)) = [13, 12, 11, 10, 9, 8, 7, 6, 5, 4, 3, 2, 1] \<and>
   map pid (products (fetchProducts (Resolved thirteen) initial)) =
     [13, 12, 11, 10, 9, 8, 7, 6] \<and>
   map pid (pageData thirteen 0) = [13, 12, 11, 10, 9, 8, 7, 6, 5, 4, 3, 2] \<and>
   map pid (pageData thirteen 1) = [1] \<and>
   map pid (pageData (rev thirteen) 1) = [1]"
proof -
  have e: "mset (rev thirteen) = mset thirteen" by simp
  note T0 = presented_descending [of thirteen initial 0 "rev thirteen"]
  note T1 = presented_descending [of thirteen initial 1 "rev thirteen"]
  have s: "map pid (sortDesc thirteen) = [13, 12, 11, 10, 9, 8, 7, 6, 5, 4, 3, 2, 1]"
    by (simp add: sortDesc_def thirteen_def sample_def)
  from T0 e have "map pid (sortDesc (rev thirteen)) = map pid (sortDesc thirteen)" by blast
  then have sr: "map pid (sortDesc (rev thirteen)) = [13, 12, 11, 10, 9, 8, 7, 6, 5, 4, 3, 2, 1]"
    using s by simp
  from T0 have "map pid (products (fetchProducts (Resolved thirteen) initial)) =
      take 8 (rev (sort (map pid thirteen)))" by blast
  then have hp: "map pid (products (fetchProducts (Resolved thirteen) initial)) =
      [13, 12, 11, 10, 9, 8, 7, 6]"
    by (simp add: pids_thirteen)
  from T0 have "map pid (pageData thirteen 0) =
      take 12 (drop (12 * 0) (rev (sort (map pid thirteen))))" by blast
  then have p0: "map pid (pageData thirteen 0) = [13, 12, 11, 10, 9, 8, 7, 6, 5, 4, 3, 2]"
    by (simp add: pids_thirteen)
  have p1: "map pid (pageData thirteen 1) = [1]"
    by (simp add: pageData_def slice_def sortDesc_def thirteen_def sample_def)
  from T1 e have "map pid (pageData (rev thirteen) 1) = map pid (pageData thirteen 1)"
    by blast
  then have p1r: "map pid (pageData (rev thirteen) 1) = [1]" using p1 by simp
  from e s sr hp p0 p1 p1r show ?thesis by blast
qed

text \<open>
  Claim C9. After the initial fetch has resolved with a collection of size \<open>M\<close>, the
  product state is the first \<open>min M 8\<close> items of the collection sorted by identifier,
  descending: the sorted collection has the products of the fetched one and is in
  descending order, the stored products are taken from the fetched collection, and their
  identifiers are the \<open>min M 8\<close> largest, largest first. So the state never holds more
  than 8 products. The slide count of the carousel is the minimum of the stored length and
  5, which is the minimum of \<open>M\<close> and 5.
\<close>

theorem hero_products:
  "products (fetchProducts (Resolved data) s) = take (min (length data) 8) (sortDesc data) \<and>
   mset (sortDesc data) = mset data \<and> descending (sortDesc data) \<and>
   mset (products (fetchProducts (Resolved data) s)) \<subseteq># mset data \<and>
   map pid (products (fetchProducts (Resolved data) s)) =
     take (min (length data) 8) (rev (sort (map pid data))) \<and>
   length (products (fetchProducts (Resolved data) s)) = min (length data) 8 \<and>
   length (products (fetchProducts (Resolved data) s)) \<le> 8 \<and>
   heroSlides (fetchProducts (Resolved data) s) =
     min (length (products (fetchProducts (Resolved data) s))) 5 \<and>
   heroSlides (fetchProducts (Resolved data) s) = min (length data) 5"
proof -
  let ?ps = "products (fetchProducts (Resolved data) s)"
  have ms: "mset (sortDesc data) = mset data"
    by (simp add: sortDesc_def)
  have ds: "descending (sortDesc data)"
    unfolding descending_def sortDesc_def
    using sorted_sort_key [of "\<lambda>p. - pid p" data] by (simp add: sorted_map)
  have len: "length (sortDesc data) = length data"
    using ms by (rule mset_eq_length)
  have pf: "?ps = take 8 (sortDesc data)"
    by (simp add: fetchProducts_def fetchProducts_settle_def fetchProducts_call_def slice_def)
  have t: "take 8 xs = take (min (length data) 8) xs" if "length xs = length data"
    for xs :: "'a list"
    using that by (simp add: min_def)
  have c1: "?ps = take (min (length data) 8) (sortDesc data)"
    using t [OF len] by (simp add: pf)
  have "mset (take 8 (sortDesc data)) \<subseteq># mset (sortDesc data)"
    using append_take_drop_id [of 8 "sortDesc data"]
    by (metis mset_append mset_subset_eq_add_left)
  then have c2: "mset ?ps \<subseteq># mset data"
    by (simp add: pf ms)
  have "map pid ?ps = take 8 (rev (sort (map pid data)))"
    by (simp only: pf take_map [symmetric] pids_sortDesc)
  then have c3: "map pid ?ps = take (min (length data) 8) (rev (sort (map pid data)))"
    using t [of "rev (sort (map pid data))"] by simp
  have c4: "length ?ps = min (length data) 8"
    by (simp add: pf len)
  have c5: "heroSlides (fetchProducts (Resolved data) s) = min (length ?ps) 5"
    by (simp add: heroSlides_def)
  have c6: "heroSlides (fetchProducts (Resolved data) s) = min (length data) 5"
    unfolding c5 c4 by simp
  from c1 ms ds c2 c3 c4 c5 c6 show ?thesis by simp
qed

theorem hero_products_witness:
  "map pid (products (fetchProducts (Resolved thirteen) initial)) =
     [13, 12, 11, 10, 9, 8, 7, 6] \<and>
   products (fetchProducts (Resolved thirteen) initial) =
     map sample [13, 12, 11, 10, 9, 8, 7, 6] \<and>
   length (products (fetchProducts (Resolved thirteen) initial)) = 8 \<and>
   heroSlides (fetchProducts (Resolved thirteen) initial) = 5 \<and>
   products (fetchProducts (Resolved three) initial) = [sample 3, sample 2, sample 1] \<and>
   heroSlides (fetchProducts (Resolved three) initial) = 3"
proof -
  note T = hero_products [of thirteen initial]
  note U = hero_products [of three initial]
  have l: "length thirteen = 13" "length three = 3" by (simp_all add: thirteen_def three_def)
  have s13: "sortDesc thirteen = map sample [13, 12, 11, 10, 9, 8, 7, 6, 5, 4, 3, 2, 1]"
    by (simp add: sortDesc_def thirteen_def sample_def)
  have s3: "sortDesc three = [sample 3, sample 2, sample 1]"
    by (simp add: sortDesc_def three_def sample_def)
  from T have "map pid (products (fetchProducts (Resolved thirteen) initial)) =
      take (min (length thirteen) 8) (rev (sort (map pid thirteen)))" by blast
  then have a: "map pid (products (fetchProducts (Resolved thirteen) initial)) =
      [13, 12, 11, 10, 9, 8, 7, 6]"
    by (simp add: pids_thirteen l)
  have b: "products (fetchProducts (Resolved thirteen) initial) =
      map sample [13, 12, 11, 10, 9, 8, 7, 6]"
    by (simp add: fetchProducts_def fetchProducts_settle_def fetchProducts_call_def slice_def s13)
  from T have "length (products (fetchProducts (Resolved thirteen) initial)) =
      min (length thirteen) 8" by blast
  then have c: "length (products (fetchProducts (Resolved thirteen) initial)) = 8"
    by (simp add: l)
  have d: "heroSlides (fetchProducts (Resolved thirteen) initial) = 5"
    using b by (simp add: heroSlides_def)
  from U have "products (fetchProducts (Resolved three) initial) =
      take (min (length three) 8) (sortDesc three)" by blast
  then have e: "products (fetchProducts (Resolved three) initial) =
      [sample 3, sample 2, sample 1]"
    by (simp add: s3 l)
  from U have "heroSlides (fetchProducts (Resolved three) initial) = min (length three) 5"
    by blast
  then have f: "heroSlides (fetchProducts (Resolved three) initial) = 3"
    by (simp add: l)
  from a b c d e f show ?thesis by blast
qed

subsection \<open>Mounting\<close>

text \<open>
  Claim C10. Mounting the page calls the feed loader once: right after mount exactly one
  feed request is outstanding, it is the request for page 0, and \<open>feedLoading\<close> is set.
  The sentinel has no part in it. An observer callback in that state, intersecting or
  not, starts no second request, and when the outstanding request resolves the feed
  is page 0 of the collection, without any observer event.
\<close>

theorem first_page_at_mount:
  "feedRequests mount = [0] \<and> feedLoading mount \<and> feedProducts mount = [] \<and>
   (\<forall>isIntersecting. step (Sentinel isIntersecting) mount = Some mount) \<and>
   (\<forall>data. map_option feedProducts (step (FeedSettle (Resolved data)) mount) =
      Some (pageData data 0))"
  by (simp add: mount_eq observerCallback_def loadMore_appends) (simp add: initial_def)

subsection \<open>The carousel\<close>

lemma js_rem_nonneg: "0 \<le> a \<Longrightarrow> 0 < n \<Longrightarrow> js_rem (Num a) (Num n) = Num (a mod n)"
  by (cases "a = 0") (simp_all add: sgn_if)

lemma navigation_rejected:
  "isTransitioning c \<Longrightarrow>
     goToNext totalSlides c = c \<and> goToPrev totalSlides c = c \<and> goToSlide index c = c"
  by (simp add: goToNext_def goToPrev_def goToSlide_def)

lemma no_timer:
  "totalSlides \<le> 1 \<Longrightarrow>
     \<not> timerInstalled totalSlides \<and> intervalsPass k totalSlides c = c"
  by (induction k) (simp_all add: timerInstalled_def intervalPasses_def)

text \<open>The timer callback always sets a timeout, whatever the flag says.\<close>

lemma autoAdvance_unguarded:
  "autoAdvance totalSlides c \<noteq> c \<and>
   timeouts (autoAdvance totalSlides c) = timeouts c @ [NextSlide totalSlides]"
proof -
  have t: "timeouts (autoAdvance totalSlides c) = timeouts c @ [NextSlide totalSlides]"
    by (simp add: autoAdvance_def schedule_def)
  then have "length (timeouts (autoAdvance totalSlides c)) \<noteq> length (timeouts c)"
    by simp
  then have "autoAdvance totalSlides c \<noteq> c" by auto
  then show ?thesis using t by simp
qed

text \<open>An update scheduled while there was no slide loses the index.\<close>

lemma remainder_by_zero:
  "apply_update (NextSlide 0) x = NaN \<and> apply_update (PrevSlide 0) x = NaN"
  by (cases x) simp_all

text \<open>
  Claim C3 says that while a transition is in progress every request to change the slide
  is rejected, the interval timer's included, so that no two transitions overlap. The
  three navigation handlers are guarded (\<open>navigation_rejected\<close>); the callback of the
  interval timer is not. With three slides, a timer period that ends during the
  transition started by \<open>goToNext\<close> sets a second timeout, and the index moves twice:
  from 0 to 2, where the guarded handler leaves one pending update and the index goes
  to 1. The same run exists in the page.
\<close>

theorem timer_overlaps_transition:
  "isTransitioning (goToNext 3 useCarousel) \<and>
   goToNext 3 (goToNext 3 useCarousel) = goToNext 3 useCarousel \<and>
   timeouts (goToNext 3 useCarousel) = [NextSlide 3] \<and>
   autoAdvance 3 (goToNext 3 useCarousel) \<noteq> goToNext 3 useCarousel \<and>
   timeouts (autoAdvance 3 (goToNext 3 useCarousel)) = [NextSlide 3, NextSlide 3] \<and>
   currentIndex (timeoutFires (timeoutFires (autoAdvance 3 (goToNext 3 useCarousel)))) = Num 2 \<and>
   map_option (currentIndex \<circ> hero)
     (run [ProductsSettle (Resolved three), ClickNext, Timeout] mount) = Some (Num 1) \<and>
   map_option (currentIndex \<circ> hero)
     (run [ProductsSettle (Resolved three), ClickNext, IntervalTimer, Timeout, Timeout] mount)
     = Some (Num 2)"
  by (simp add: goToNext_def autoAdvance_def schedule_def timeoutFires_def useCarousel_def
      mount_eq initial_def fetchProducts_settle_def sortDesc_three slice_def heroSlides_def
      timerInstalled_def)

text \<open>
  Claim C7 says that with at most one slide the interval timer never fires and the index
  stays 0 for the whole session. No timer exists with at most one slide (\<open>no_timer\<close>),
  but the arrows are rendered and enabled all the same. Before the products arrive the
  slide count is 0; an arrow clicked then takes the remainder by 0 and the index becomes
  \<open>NaN\<close>. It stays \<open>NaN\<close> when a collection of one product arrives afterwards.
\<close>

theorem arrow_without_slides:
  "heroSlides mount = 0 \<and> \<not> timerInstalled (int (heroSlides mount)) \<and>
   currentIndex (hero mount) = Num 0 \<and>
   map_option (currentIndex \<circ> hero) (run [ClickNext, Timeout] mount) = Some NaN \<and>
   map_option (currentIndex \<circ> hero) (run [ClickPrev, Timeout] mount) = Some NaN \<and>
   map_option heroSlides (run [ClickNext, Timeout] mount) = Some 0 \<and>
   map_option (currentIndex \<circ> hero)
     (run [ClickNext, Timeout, ProductsSettle (Resolved [sample 1]), ClickNext, Timeout] mount)
     = Some NaN \<and>
   map_option heroSlides
     (run [ClickNext, Timeout, ProductsSettle (Resolved [sample 1]), ClickNext, Timeout] mount)
     = Some 1"
  by (simp add: goToNext_def goToPrev_def schedule_def timeoutFires_def useCarousel_def
      mount_eq initial_def fetchProducts_settle_def sortDesc_def slice_def heroSlides_def
      timerInstalled_def)

subsection \<open>The carousel inside the page\<close>

lemma apply_update_ok:
  assumes "index_ok n x" "update_ok n u"
  shows "index_ok n (apply_update u x)"
proof (cases x)
  case NaN
  then show ?thesis using assms(2) by (cases u) (auto simp: index_ok_def update_ok_def)
next
  case (Num i)
  with assms(1) have i: "0 \<le> i" "n = 0 \<Longrightarrow> i = 0" "n \<noteq> 0 \<Longrightarrow> i < int n"
    by (auto simp: index_ok_def split: if_splits)
  show ?thesis
  proof (cases u)
    case (NextSlide k)
    with assms(2) have "k = 0 \<or> (k = int n \<and> 0 < n)" by (auto simp: update_ok_def)
    then show ?thesis
    proof
      assume "k = 0" then show ?thesis using Num NextSlide by (simp add: index_ok_def)
    next
      assume k: "k = int n \<and> 0 < n"
      then have "js_rem (Num (i + 1)) (Num k) = Num ((i + 1) mod k)"
        using i by (intro js_rem_nonneg) auto
      then show ?thesis using Num NextSlide k by (simp add: index_ok_def)
    qed
  next
    case (PrevSlide k)
    with assms(2) have "k = 0 \<or> (k = int n \<and> 0 < n)" by (auto simp: update_ok_def)
    then show ?thesis
    proof
      assume "k = 0" then show ?thesis using Num PrevSlide by (simp add: index_ok_def)
    next
      assume k: "k = int n \<and> 0 < n"
      then have "js_rem (Num (i - 1 + k)) (Num k) = Num ((i - 1 + k) mod k)"
        using i by (intro js_rem_nonneg) auto
      then show ?thesis using Num PrevSlide k by (simp add: index_ok_def)
    qed
  next
    case (ToSlide j)
    with assms(2) show ?thesis by (auto simp: index_ok_def update_ok_def)
  qed
qed

lemma schedule_ok:
  "carousel_ok s \<Longrightarrow> update_ok (heroSlides s) u \<Longrightarrow> carousel_ok (s\<lparr>hero := schedule u (hero s)\<rparr>)"
  by (simp add: carousel_ok_def schedule_def heroSlides_def)

lemma timeoutFires_ok:
  "carousel_ok s \<Longrightarrow> carousel_ok (s\<lparr>hero := timeoutFires (hero s)\<rparr>)"
  by (cases "timeouts (hero s)")
     (auto simp: carousel_ok_def timeoutFires_def heroSlides_def intro: apply_update_ok)

lemma mount_ok: "carousel_ok mount"
  by (simp add: carousel_ok_def mount_def loadMore_start_def loadMore_call_def
      fetchProducts_call_def initial_def useCarousel_def heroSlides_def index_ok_def)

lemma index_ok_grow: "index_ok 0 x \<Longrightarrow> index_ok n x"
  by (cases x) (auto simp: index_ok_def)

lemma update_ok_grow: "update_ok 0 u \<Longrightarrow> update_ok n u"
  by (cases u) (auto simp: update_ok_def)

lemma productsSettle_ok:
  assumes "carousel_ok s" "productsRequested s"
  shows "carousel_ok (fetchProducts_settle r s)"
proof -
  from assms have e: "products s = []" by (simp add: carousel_ok_def)
  then have z: "heroSlides s = 0" by (simp add: heroSlides_def)
  have i0: "index_ok 0 (currentIndex (hero s))" and u0: "list_all (update_ok 0) (timeouts (hero s))"
    using assms(1) z by (simp_all add: carousel_ok_def)
  have u: "list_all (update_ok n) (timeouts (hero s))" for n
    using u0 by (auto simp: list_all_iff intro: update_ok_grow)
  show ?thesis
    using e index_ok_grow[OF i0] u
    by (cases r) (simp_all add: carousel_ok_def fetchProducts_settle_def heroSlides_def Let_def)
qed

lemma loadMore_settle_hero [simp]:
  "hero (loadMore_settle r p s) = hero s" "products (loadMore_settle r p s) = products s"
  "productsRequested (loadMore_settle r p s) = productsRequested s"
  by (cases r; simp add: loadMore_settle_def Let_def)+

lemma loadMore_start_hero [simp]:
  "hero (loadMore_start s) = hero s" "products (loadMore_start s) = products s"
  "productsRequested (loadMore_start s) = productsRequested s"
  by (simp_all add: loadMore_start_def loadMore_call_def)

lemma feed_ok:
  "carousel_ok s \<Longrightarrow> carousel_ok (loadMore_settle r p (s\<lparr>feedRequests := rest\<rparr>))"
  "carousel_ok s \<Longrightarrow> carousel_ok (observerCallback b s)"
  by (simp_all add: carousel_ok_def heroSlides_def observerCallback_def)

lemma step_ok:
  assumes "carousel_ok s" "step e s = Some s'"
  shows "carousel_ok s'"
proof (cases e)
  case (ProductsSettle r)
  with assms show ?thesis by (auto split: if_splits intro: productsSettle_ok)
next
  case IntervalTimer
  with assms show ?thesis
    by (auto split: if_splits simp: autoAdvance_def update_ok_def intro!: schedule_ok)
next
  case Timeout
  with assms show ?thesis by (auto split: if_splits intro: timeoutFires_ok)
next
  case ClickNext
  have "update_ok (heroSlides s) (NextSlide (int (heroSlides s)))" by (simp add: update_ok_def)
  from schedule_ok[OF assms(1) this] ClickNext assms show ?thesis
    by (cases s) (auto simp: goToNext_def)
next
  case ClickPrev
  have "update_ok (heroSlides s) (PrevSlide (int (heroSlides s)))" by (simp add: update_ok_def)
  from schedule_ok[OF assms(1) this] ClickPrev assms show ?thesis
    by (cases s) (auto simp: goToPrev_def)
next
  case (ClickIndicator i)
  show ?thesis
  proof (cases "heroSlides s > 1 \<and> i < heroSlides s")
    case True
    then have "update_ok (heroSlides s) (ToSlide (int i))" by (simp add: update_ok_def)
    from schedule_ok[OF assms(1) this] ClickIndicator assms True show ?thesis
      by (cases s) (auto simp: goToSlide_def)
  next
    case False
    with ClickIndicator assms show ?thesis by auto
  qed
next
  case (Sentinel b)
  with assms show ?thesis by (auto intro: feed_ok)
next
  case (FeedSettle r)
  with assms show ?thesis by (auto split: list.splits intro: feed_ok)
qed

lemma reachable_ok: "reachable s \<Longrightarrow> carousel_ok s"
  by (induction rule: reachable.induct) (auto intro: mount_ok step_ok)

lemma run_reachable: "reachable s \<Longrightarrow> run es s = Some s' \<Longrightarrow> reachable s'"
  by (induction es arbitrary: s) (auto split: option.splits intro: reachable_step)


lemma one_feed_request:
  "reachable s \<Longrightarrow> length (feedRequests s) \<le> 1 \<and> (feedLoading s \<longleftrightarrow> feedRequests s \<noteq> [])"
proof (induction rule: reachable.induct)
  case reachable_mount
  show ?case by (simp add: mount_eq initial_def)
next
  case (reachable_step s e s')
  then show ?case
    by (cases e)
       (auto simp: fetchProducts_settle_def observerCallback_def loadMore_start_def
          loadMore_call_def loadMore_settle_def Let_def
          split: if_splits list.splits response.splits)
qed

text \<open>
  Claim C2, amended. In every reachable state of the page in which the index is a number,
  the index is not negative; it is 0 while no slide is displayed, and below the slide
  count, the minimum of the product count and 5, as soon as a slide is displayed. Every
  event of the page keeps this: the interval timer, go next, go previous, go to index, the
  expiry of their timeouts, and the arrival of the products.
\<close>

theorem carousel_index_bound:
  "reachable s \<Longrightarrow> currentIndex (hero s) = Num i \<Longrightarrow>
     0 \<le> i \<and> (if heroSlides s = 0 then i = 0 else i < int (heroSlides s)) \<and>
     heroSlides s = min (length (products s)) 5"
  using reachable_ok [of s] by (simp add: carousel_ok_def index_ok_def heroSlides_def)

theorem carousel_index_bound_witness:
  "\<exists>s. run [ProductsSettle (Resolved three), ClickNext, Timeout] mount = Some s \<and>
     reachable s \<and> currentIndex (hero s) = Num 1 \<and> heroSlides s = 3 \<and>
     (1::int) < int (heroSlides s)"
proof -
  define s where "s = initial\<lparr>products := [sample 3, sample 2, sample 1], loading := False,
      feedLoading := True, feedRequests := [0],
      hero := \<lparr>currentIndex = Num 1, isTransitioning = False, timeouts = []\<rparr>\<rparr>"
  have r: "run [ProductsSettle (Resolved three), ClickNext, Timeout] mount = Some s"
    by (simp add: s_def mount_eq fetchProducts_settle_def sortDesc_three slice_def
        heroSlides_def goToNext_def schedule_def timeoutFires_def initial_def useCarousel_def)
  have reach: "reachable s" by (rule run_reachable [OF reachable_mount r])
  have idx: "currentIndex (hero s) = Num 1" by (simp add: s_def)
  have n: "heroSlides s = 3" by (simp add: s_def heroSlides_def)
  from carousel_index_bound [OF reach idx] n have "(1::int) < int (heroSlides s)" by simp
  with r reach idx n show ?thesis by blast
qed

text \<open>
  Claim C2 as stated fails in the state the page is mounted in: no product has arrived,
  the slide count is 0, and the index 0 is not below it.
\<close>

theorem carousel_index_bound_counterexample:
  "reachable mount \<and>
   \<not> (\<exists>i. currentIndex (hero mount) = Num i \<and> i < int (heroSlides mount))"
  by (simp add: reachable_mount) (simp add: mount_eq initial_def useCarousel_def heroSlides_def)

lemma intervals_index:
  "1 < n \<Longrightarrow> intervalsPass N n useCarousel = \<lparr>currentIndex = Num (int N mod n), isTransitioning = False, timeouts = []\<rparr>"
proof (induction N)
  case 0
  then show ?case by (simp add: useCarousel_def)
next
  case (Suc N)
  have "js_rem (Num (int N mod n + 1)) (Num n) = Num ((int N mod n + 1) mod n)"
    using Suc.prems by (intro js_rem_nonneg) auto
  also have "(int N mod n + 1) mod n = (int N + 1) mod n"
    by (rule mod_add_left_eq)
  also have "int N + 1 = int (Suc N)" by simp
  finally show ?case using Suc
    by (simp add: intervalPasses_def timerInstalled_def autoAdvance_def schedule_def timeoutFires_def)
qed


text \<open>
  Claim C6. In a carousel at rest with at least one slide and index \<open>i \<ge> 0\<close>, go next
  leads to index \<open>(i + 1) mod totalSlides\<close> and go previous to
  \<open>(i - 1 + totalSlides) mod totalSlides\<close>, once the timeout of the transition has
  expired. With more than one slide, after \<open>N\<close> periods of the interval timer, counted
  from the initial state of the hook, the index is \<open>N mod totalSlides\<close>.
\<close>

theorem index_wraps:
  "(0 < n \<and> 0 \<le> i \<and> currentIndex c = Num i \<and> \<not> isTransitioning c \<and> timeouts c = [] \<longrightarrow>
      currentIndex (timeoutFires (goToNext n c)) = Num ((i + 1) mod n) \<and>
      currentIndex (timeoutFires (goToPrev n c)) = Num ((i - 1 + n) mod n)) \<and>
   (1 < n \<longrightarrow> currentIndex (intervalsPass N n useCarousel) = Num (int N mod n))"
proof (intro conjI impI)
  assume a: "0 < n \<and> 0 \<le> i \<and> currentIndex c = Num i \<and> \<not> isTransitioning c \<and> timeouts c = []"
  then have "js_rem (Num (i + 1)) (Num n) = Num ((i + 1) mod n)"
    by (intro js_rem_nonneg) auto
  then show "currentIndex (timeoutFires (goToNext n c)) = Num ((i + 1) mod n)"
    using a by (simp add: goToNext_def schedule_def timeoutFires_def)
  from a have "js_rem (Num (i - 1 + n)) (Num n) = Num ((i - 1 + n) mod n)"
    by (intro js_rem_nonneg) auto
  then show "currentIndex (timeoutFires (goToPrev n c)) = Num ((i - 1 + n) mod n)"
    using a by (simp add: goToPrev_def schedule_def timeoutFires_def)
next
  assume "1 < n"
  then show "currentIndex (intervalsPass N n useCarousel) = Num (int N mod n)"
    by (simp add: intervals_index)
qed


theorem index_wraps_witness:
  "(0::int) < 5 \<and> (0::int) \<le> 4 \<and>
   currentIndex (timeoutFires (goToNext 5 (useCarousel\<lparr>currentIndex := Num 4\<rparr>))) = Num 0 \<and>
   currentIndex (timeoutFires (goToPrev 5 (useCarousel\<lparr>currentIndex := Num 4\<rparr>))) = Num 3 \<and>
   currentIndex (timeoutFires (goToPrev 5 useCarousel)) = Num 4 \<and>
   (1::int) < 5 \<and> currentIndex (intervalsPass 7 5 useCarousel) = Num 2"
proof -
  have a: "currentIndex (useCarousel\<lparr>currentIndex := Num 4\<rparr>) = Num 4 \<and>
      \<not> isTransitioning (useCarousel\<lparr>currentIndex := Num 4\<rparr>) \<and>
      timeouts (useCarousel\<lparr>currentIndex := Num 4\<rparr>) = []"
    by (simp add: useCarousel_def)
  have b: "currentIndex useCarousel = Num 0 \<and> \<not> isTransitioning useCarousel \<and>
      timeouts useCarousel = []"
    by (simp add: useCarousel_def)
  from index_wraps [of 5 4 "useCarousel\<lparr>currentIndex := Num 4\<rparr>" 7] a
  have "currentIndex (timeoutFires (goToNext 5 (useCarousel\<lparr>currentIndex := Num 4\<rparr>))) = Num 0 \<and>
      currentIndex (timeoutFires (goToPrev 5 (useCarousel\<lparr>currentIndex := Num 4\<rparr>))) = Num 3 \<and>
      currentIndex (intervalsPass 7 5 useCarousel) = Num 2"
    by simp
  moreover from index_wraps [of 5 0 useCarousel 0] b
  have "currentIndex (timeoutFires (goToPrev 5 useCarousel)) = Num 4" by simp
  ultimately show ?thesis by simp
qed

end
